theory Spec2Isabelle
  imports Complex_Main "HOL-Library.Sublist"
begin

section \<open>Python values and string operations used by the program\<close>

text \<open>
  Text is modelled as \<open>string\<close> (ASCII characters); the bytes of a decoded image are a
  list of characters as well. The result of \<open>json.load\<close> is a value of type \<open>json\<close>;
  a JSON number is modelled as an integer, and \<open>JObj\<close> holds the items of the parsed
  dict in order.
\<close>

type_synonym bytes = "char list"

datatype json =
    JNull
  | JBool bool
  | JNum int
  | JStr string
  | JArr "json list"
  | JObj "(string \<times> json) list"

text \<open>Python truthiness, as tested by \<open>if not x\<close>.\<close>

fun truthy :: "json \<Rightarrow> bool" where
  "truthy JNull = False"
| "truthy (JBool b) = b"
| "truthy (JNum n) = (n \<noteq> 0)"
| "truthy (JStr s) = (s \<noteq> [])"
| "truthy (JArr xs) = (xs \<noteq> [])"
| "truthy (JObj kvs) = (kvs \<noteq> [])"

text \<open>\<open>d.get(k)\<close> (None when the key is absent) and \<open>d.get(k, default)\<close>.\<close>

definition dict_get :: "(string \<times> json) list \<Rightarrow> string \<Rightarrow> json" where
  "dict_get kvs k = (case map_of kvs k of None \<Rightarrow> JNull | Some v \<Rightarrow> v)"

definition dict_get_or :: "(string \<times> json) list \<Rightarrow> string \<Rightarrow> json \<Rightarrow> json" where
  "dict_get_or kvs k d = (case map_of kvs k of None \<Rightarrow> d | Some v \<Rightarrow> v)"

text \<open>
  Iterating a value with \<open>for ... in enumerate(v)\<close>: a list yields its elements, a dict
  its keys, a string its characters; any other value raises TypeError (\<open>None\<close>).
\<close>

fun py_iter :: "json \<Rightarrow> json list option" where
  "py_iter (JArr xs) = Some xs"
| "py_iter (JObj kvs) = Some (map (\<lambda>kv. JStr (fst kv)) kvs)"
| "py_iter (JStr s) = Some (map (\<lambda>c. JStr [c]) s)"
| "py_iter JNull = None"
| "py_iter (JBool b) = None"
| "py_iter (JNum n) = None"

text \<open>
  \<open>s.replace(old, new)\<close>: the occurrences of \<open>old\<close> are found from the left and do not
  overlap. \<open>replace_all\<close> is the scan for a non-empty \<open>old\<close>; after a match the scan
  resumes behind it, that is at \<open>drop (length old) (c # cs)\<close>.
\<close>

fun replace_all :: "string \<Rightarrow> string \<Rightarrow> string \<Rightarrow> string" where
  "replace_all [] old new = []"
| "replace_all (c # cs) old new =
     (if prefix old (c # cs) then new @ replace_all (drop (length old - 1) cs) old new
      else c # replace_all cs old new)"

definition py_replace :: "string \<Rightarrow> string \<Rightarrow> string \<Rightarrow> string" where
  "py_replace s old new =
     (if old = [] then new @ concat (map (\<lambda>c. c # new) s) else replace_all s old new)"

text \<open>\<open>str.isalnum\<close> on ASCII text: non-empty, letters and digits only.\<close>

definition is_alnum_char :: "char \<Rightarrow> bool" where
  "is_alnum_char c =
     (let n = (of_char c :: nat)
      in (48 \<le> n \<and> n \<le> 57) \<or> (65 \<le> n \<and> n \<le> 90) \<or> (97 \<le> n \<and> n \<le> 122))"

definition isalnum :: "string \<Rightarrow> bool" where
  "isalnum s = (s \<noteq> [] \<and> list_all is_alnum_char s)"

text \<open>\<open>str(n)\<close> for a non-negative integer, and the format \<open>{n:010d}\<close>.\<close>

definition digit_char :: "nat \<Rightarrow> char" where
  "digit_char d = char_of (48 + d)"

fun dec_digits :: "nat \<Rightarrow> string" where
  "dec_digits n =
     (if n < 10 then [digit_char n] else dec_digits (n div 10) @ [digit_char (n mod 10)])"

definition pad10 :: "nat \<Rightarrow> string" where
  "pad10 n = replicate (10 - length (dec_digits n)) (CHR ''0'') @ dec_digits n"

section \<open>The stitcher: \<open>_stitch_ocr_data\<close>\<close>

text \<open>
  What the stitcher calls outside the repository is a field of \<open>stitch_env\<close>:
  \<open>b64decode\<close> is \<open>base64.b64decode\<close> on a string (\<open>None\<close> when it raises);
  \<open>py_str\<close> is \<open>str()\<close> on a value that is not a string, as an f-string formats it;
  \<open>can_write\<close> says whether opening and writing the asset file of that name succeeds;
  \<open>rel_dir\<close> is the path of the asset directory relative to the directory of the merged
  document, in POSIX form with its trailing slash (\<open>../images/\<close> in the workflow of
  \<open>_perform_stitch_and_pandoc_workflow\<close>), so that the relative path of an asset is
  \<open>rel_dir\<close> followed by the file name;
  \<open>with_status\<close> says whether a \<open>status_callback\<close> was passed.
\<close>

record stitch_env =
  b64decode :: "string \<Rightarrow> bytes option"
  py_str :: "json \<Rightarrow> string"
  can_write :: "string \<Rightarrow> bool"
  rel_dir :: string
  with_status :: bool

text \<open>
  The calls queued with \<open>wx.CallAfter\<close>, in program order. The text of a caught
  exception is not part of the model.
\<close>

datatype log_entry =
    StatusStitching string nat nat
  | WarnNonDict string
  | ErrImage string string
  | ErrRecord string
  | StatusStitched

text \<open>
  The state of one run: the text written to the merged document so far, the asset files
  written so far (name and content, in order), \<open>image_file_counter\<close>, and the queued calls.
\<close>

record stitch_state =
  md_out :: string
  writes :: "(string \<times> bytes) list"
  counter :: nat
  logs :: "log_entry list"

definition fmt :: "stitch_env \<Rightarrow> json \<Rightarrow> string" where
  "fmt env v = (case v of JStr s \<Rightarrow> s | _ \<Rightarrow> py_str env v)"

definition last_component :: "string \<Rightarrow> string" where
  "last_component s = rev (takeWhile (\<lambda>c. c \<noteq> CHR ''/'') (rev s))"

text \<open>
  Lines 160 to 170: the image type and the text to decode, from the payload. The payload
  contains a comma here exactly when \<open>split(",", 1)\<close> gives a header and a rest.
\<close>

definition parse_payload :: "string \<Rightarrow> string \<times> string" where
  "parse_payload base64_data_uri =
     (if CHR '','' \<in> set base64_data_uri then
        (let header = takeWhile (\<lambda>c. c \<noteq> CHR '','') base64_data_uri;
             b64_data = tl (dropWhile (\<lambda>c. c \<noteq> CHR '','') base64_data_uri);
             potential_type = last_component (takeWhile (\<lambda>c. c \<noteq> CHR '';'') header)
         in (if prefix ''data:image/'' header \<and> isalnum potential_type
             then potential_type else ''jpeg'', b64_data))
      else (''jpeg'', base64_data_uri))"

definition asset_name :: "nat \<Rightarrow> string \<Rightarrow> string" where
  "asset_name n image_type = ''image_'' @ pad10 n @ ''.'' @ image_type"

definition bare_ref :: "string \<Rightarrow> string" where
  "bare_ref target = ''![]('' @ target @ '')''"

definition named_ref :: "string \<Rightarrow> string" where
  "named_ref target = ''!['' @ target @ '']('' @ target @ '')''"

text \<open>
  One iteration of the loop over a page's images (lines 154 to 198).
  \<open>ImgRaise\<close>: \<open>image_info.get\<close> raised outside the inner \<open>try\<close>, the exception reaches
  the handler of the record. \<open>ImgSkip\<close>: the \<open>continue\<close> of line 158.
  \<open>ImgError\<close>: the inner handler logged an error. \<open>ImgDone\<close>: the block ran to its end.
\<close>

datatype img_step =
    ImgRaise
  | ImgSkip
  | ImgError stitch_state
  | ImgDone json stitch_state

definition log_img_error :: "stitch_env \<Rightarrow> string \<Rightarrow> json \<Rightarrow> stitch_state \<Rightarrow> stitch_state" where
  "log_img_error env fname original_image_id st =
     st\<lparr>logs := logs st @ [ErrImage (fmt env original_image_id) fname]\<rparr>"

definition process_image ::
  "stitch_env \<Rightarrow> string \<Rightarrow> json \<Rightarrow> stitch_state \<Rightarrow> json \<Rightarrow> img_step" where
  "process_image env fname markdown_content st image_info =
     (case image_info of
        JObj kvs \<Rightarrow>
          (let original_image_id = dict_get kvs ''id'';
               base64_data_uri = dict_get kvs ''image_base64''
           in if \<not> truthy original_image_id \<or> \<not> truthy base64_data_uri then ImgSkip
              else
                (case base64_data_uri of
                   JStr uri \<Rightarrow>
                     (let (image_type, actual_encoded_data) = parse_payload uri
                      in case b64decode env actual_encoded_data of
                           None \<Rightarrow> ImgError (log_img_error env fname original_image_id st)
                         | Some image_bytes \<Rightarrow>
                             (let new_image_filename = asset_name (counter st) image_type
                              in if \<not> can_write env new_image_filename
                                 then ImgError (log_img_error env fname original_image_id st)
                                 else
                                   (let st1 = st\<lparr>writes := writes st @ [(new_image_filename, image_bytes)]\<rparr>;
                                        relative_image_path = rel_dir env @ new_image_filename;
                                        idtext = fmt env original_image_id
                                    in case markdown_content of
                                         JStr m \<Rightarrow>
                                           ImgDone
                                             (JStr (py_replace
                                                      (py_replace m (bare_ref idtext) (bare_ref relative_image_path))
                                                      (named_ref idtext) (bare_ref relative_image_path)))
                                             (st1\<lparr>counter := Suc (counter st1)\<rparr>)
                                       | _ \<Rightarrow> ImgError (log_img_error env fname original_image_id st1))))
                 | _ \<Rightarrow> ImgError (log_img_error env fname original_image_id st)))
      | _ \<Rightarrow> ImgRaise)"

text \<open>
  The loop over the images of a page. \<open>Inl\<close>: an exception left the loop, with the state
  at that moment; \<open>Inr\<close>: the loop ended, with the page text and the state.
\<close>

fun process_images ::
  "stitch_env \<Rightarrow> string \<Rightarrow> json list \<Rightarrow> json \<Rightarrow> stitch_state \<Rightarrow> stitch_state + (json \<times> stitch_state)" where
  "process_images env fname [] md st = Inr (md, st)"
| "process_images env fname (image_info # rest) md st =
     (case process_image env fname md st image_info of
        ImgRaise \<Rightarrow> Inl st
      | ImgSkip \<Rightarrow> process_images env fname rest md st
      | ImgError st' \<Rightarrow> process_images env fname rest md st'
      | ImgDone md' st' \<Rightarrow> process_images env fname rest md' st')"

text \<open>
  One iteration of the loop over the pages of a record (lines 150 to 199).
  \<open>PageRaise\<close>: an exception reaches the handler of the record (a page that is not a
  dict, an \<open>images\<close> value that cannot be iterated, an image entry that is not a dict, a
  page text that is not a string at line 199). \<open>PageSkip\<close>: the \<open>continue\<close> of line 153.
\<close>

datatype page_step =
    PageRaise stitch_state
  | PageSkip
  | PageDone stitch_state

definition blank_line :: string where
  "blank_line = [CHR 0x0A, CHR 0x0A]"

definition process_page :: "stitch_env \<Rightarrow> string \<Rightarrow> stitch_state \<Rightarrow> json \<Rightarrow> page_step" where
  "process_page env fname st page_data =
     (case page_data of
        JObj kvs \<Rightarrow>
          (let markdown_content = dict_get kvs ''markdown''
           in if \<not> truthy markdown_content then PageSkip
              else
                (case py_iter (dict_get_or kvs ''images'' (JArr [])) of
                   None \<Rightarrow> PageRaise st
                 | Some imgs \<Rightarrow>
                     (case process_images env fname imgs markdown_content st of
                        Inl st' \<Rightarrow> PageRaise st'
                      | Inr (md', st') \<Rightarrow>
                          (case md' of
                             JStr m \<Rightarrow> PageDone (st'\<lparr>md_out := md_out st' @ m @ blank_line\<rparr>)
                           | _ \<Rightarrow> PageRaise st'))))
      | _ \<Rightarrow> PageRaise st)"

fun process_pages :: "stitch_env \<Rightarrow> string \<Rightarrow> json list \<Rightarrow> stitch_state \<Rightarrow> stitch_state + stitch_state" where
  "process_pages env fname [] st = Inr st"
| "process_pages env fname (page_data # rest) st =
     (case process_page env fname st page_data of
        PageRaise st' \<Rightarrow> Inl st'
      | PageSkip \<Rightarrow> process_pages env fname rest st
      | PageDone st' \<Rightarrow> process_pages env fname rest st')"

text \<open>
  One iteration of the loop over the files (lines 136 to 203). A file is its name and
  the value \<open>json.load\<close> returns for it, \<open>None\<close> when opening or parsing it raises.
  \<open>announce\<close> is the status call of lines 137 to 141, \<open>stitch_record\<close> the \<open>try\<close>
  block of lines 142 to 203.
\<close>

definition log_record_error :: "string \<Rightarrow> stitch_state \<Rightarrow> stitch_state" where
  "log_record_error fname st = st\<lparr>logs := logs st @ [ErrRecord fname]\<rparr>"

definition announce :: "stitch_env \<Rightarrow> nat \<Rightarrow> nat \<Rightarrow> string \<Rightarrow> stitch_state \<Rightarrow> stitch_state" where
  "announce env i n_files fname st =
     (if with_status env
      then st\<lparr>logs := logs st @ [StatusStitching fname (i + 1) n_files]\<rparr> else st)"

definition stitch_record :: "stitch_env \<Rightarrow> string \<Rightarrow> json option \<Rightarrow> stitch_state \<Rightarrow> stitch_state" where
  "stitch_record env fname content st =
     (case content of
        None \<Rightarrow> log_record_error fname st
      | Some (JObj kvs) \<Rightarrow>
          (case py_iter (dict_get_or kvs ''pages'' (JArr [])) of
             None \<Rightarrow> log_record_error fname st
           | Some pages \<Rightarrow>
               (case process_pages env fname pages st of
                  Inl st' \<Rightarrow> log_record_error fname st'
                | Inr st' \<Rightarrow> st'))
      | Some _ \<Rightarrow> st\<lparr>logs := logs st @ [WarnNonDict fname]\<rparr>)"

definition process_record ::
  "stitch_env \<Rightarrow> nat \<Rightarrow> stitch_state \<Rightarrow> nat \<times> string \<times> json option \<Rightarrow> stitch_state" where
  "process_record env n_files st entry =
     (case entry of (i, fname, content) \<Rightarrow>
        stitch_record env fname content (announce env i n_files fname st))"

definition initial_state :: stitch_state where
  "initial_state = \<lparr>md_out = [], writes = [], counter = 0, logs = []\<rparr>"

definition stitch_ocr_data :: "stitch_env \<Rightarrow> (string \<times> json option) list \<Rightarrow> stitch_state" where
  "stitch_ocr_data env json_files =
     (let st = foldl (process_record env (length json_files)) initial_state
                 (enumerate 0 json_files)
      in if with_status env then st\<lparr>logs := logs st @ [StatusStitched]\<rparr> else st)"


section \<open>A stitch run on the output locations\<close>

text \<open>
  The output locations of a run: the merged document (\<open>None\<close> when the file does not
  exist) and the files of the asset directory. Lines 132 to 135: the directories are
  created if missing and keep what they hold, the merged document is opened for writing
  and so starts empty, \<open>image_file_counter\<close> starts at 0; an asset file is opened for
  writing under its name and replaces a file of that name.
\<close>


record output_world =
  merged_document :: "string option"
  asset_dir :: "string \<rightharpoonup> bytes"

definition write_file :: "(string \<rightharpoonup> bytes) \<Rightarrow> string \<times> bytes \<Rightarrow> (string \<rightharpoonup> bytes)" where
  "write_file d f = d(fst f \<mapsto> snd f)"

definition run_stitch ::
  "stitch_env \<Rightarrow> (string \<times> json option) list \<Rightarrow> output_world \<Rightarrow> output_world" where
  "run_stitch env json_files w =
     (let st = stitch_ocr_data env json_files
      in \<lparr>merged_document = Some (md_out st),
          asset_dir = foldl write_file (asset_dir w) (writes st)\<rparr>)"

section \<open>Auxiliary notions for the properties of the stitcher\<close>

fun is_dict :: "json \<Rightarrow> bool" where
  "is_dict (JObj kvs) = True"
| "is_dict _ = False"

text \<open>
  What a run leaves behind apart from the queued calls: the merged text, the asset
  files written and the counter.
\<close>

definition core :: "stitch_state \<Rightarrow> string \<times> (string \<times> bytes) list \<times> nat" where
  "core st = (md_out st, writes st, counter st)"

text \<open>Two results of a step that agree on everything but the queued calls.\<close>

fun img_rel :: "img_step \<Rightarrow> img_step \<Rightarrow> bool" where
  "img_rel ImgRaise ImgRaise = True"
| "img_rel ImgSkip ImgSkip = True"
| "img_rel (ImgError a) (ImgError b) = (core a = core b)"
| "img_rel (ImgDone m a) (ImgDone m' b) = (m = m' \<and> core a = core b)"
| "img_rel _ _ = False"

fun imgs_rel ::
  "stitch_state + (json \<times> stitch_state) \<Rightarrow> stitch_state + (json \<times> stitch_state) \<Rightarrow> bool" where
  "imgs_rel (Inl a) (Inl b) = (core a = core b)"
| "imgs_rel (Inr (m, a)) (Inr (m', b)) = (m = m' \<and> core a = core b)"
| "imgs_rel _ _ = False"

fun page_rel :: "page_step \<Rightarrow> page_step \<Rightarrow> bool" where
  "page_rel (PageRaise a) (PageRaise b) = (core a = core b)"
| "page_rel PageSkip PageSkip = True"
| "page_rel (PageDone a) (PageDone b) = (core a = core b)"
| "page_rel _ _ = False"

fun pages_rel :: "stitch_state + stitch_state \<Rightarrow> stitch_state + stitch_state \<Rightarrow> bool" where
  "pages_rel (Inl a) (Inl b) = (core a = core b)"
| "pages_rel (Inr a) (Inr b) = (core a = core b)"
| "pages_rel _ _ = False"

text \<open>Reading a decimal numeral back, to tell asset names apart.\<close>

definition is_digit :: "char \<Rightarrow> bool" where
  "is_digit c = (48 \<le> (of_char c :: nat) \<and> (of_char c :: nat) \<le> 57)"


declare dec_digits.simps [simp del]




text \<open>The asset files written so far are numbered 0, 1, 2, ... up to the counter.\<close>

definition numbered :: "stitch_state \<Rightarrow> bool" where
  "numbered st =
     (\<exists>exts. length exts = counter st \<and>
        map fst (writes st) = map (\<lambda>(k, e). asset_name k e) (enumerate 0 exts))"

text \<open>
  Conditions under which the textual replacement of lines 185 to 192 leaves no reference
  behind. A text is \<open>plain\<close> when it contains neither an exclamation mark nor a closing
  parenthesis. An id text is \<open>safe_id\<close> when it is non-empty and plain, does not begin
  with a closing bracket, and does not begin with the path of the asset directory
  followed by \<open>image_\<close> (so that it is not itself the relative path of an asset).
\<close>


definition plain :: "string \<Rightarrow> bool" where
  "plain s = (CHR ''!'' \<notin> set s \<and> CHR '')'' \<notin> set s)"

definition safe_id :: "stitch_env \<Rightarrow> string \<Rightarrow> bool" where
  "safe_id env a =
     (a \<noteq> [] \<and> plain a \<and> \<not> prefix '']'' a \<and> \<not> prefix (rel_dir env @ ''image_'') a)"

section \<open>Example inputs\<close>

text \<open>
  The example of the specification: record A has one page with the text
  \<open>See ![](img1)\<close> and one image \<open>img1\<close> with a PNG data URI, record B has one page
  with the text \<open>Done.\<close>. In \<open>example_env\<close> the decoder is given on the payloads that
  occur in the examples, every asset file can be written, and the asset directory is
  \<open>../images/\<close> as in \<open>_perform_stitch_and_pandoc_workflow\<close>.
\<close>

definition example_env :: stitch_env where
  "example_env =
     \<lparr>b64decode = (\<lambda>s. if s = ''QQ=='' then Some ''A'' else if s = ''Qg=='' then Some ''B'' else None),
      py_str = (\<lambda>v. ''None''),
      can_write = (\<lambda>name. True),
      rel_dir = ''../images/'',
      with_status = True\<rparr>"

definition example_image :: json where
  "example_image =
     JObj [(''id'', JStr ''img1''), (''image_base64'', JStr ''data:image/png;base64,QQ=='')]"

definition example_image_2 :: json where
  "example_image_2 = JObj [(''id'', JStr ''img2''), (''image_base64'', JStr ''Qg=='')]"

definition example_record_a :: json where
  "example_record_a =
     JObj [(''pages'', JArr [JObj [(''markdown'', JStr ''See ![](img1)''),
                                   (''images'', JArr [example_image])]])]"

definition example_record_b :: json where
  "example_record_b = JObj [(''pages'', JArr [JObj [(''markdown'', JStr ''Done.'')]])]"

text \<open>
  A page that uses both reference forms, and a record whose image id is the relative
  path that the first asset of a run gets.
\<close>

definition example_page_two_forms :: "(string \<times> json) list" where
  "example_page_two_forms =
     [(''markdown'', JStr ''See ![](img1) and ![img1](img1)''),
      (''images'', JArr [example_image])]"

definition clash_record :: json where
  "clash_record =
     JObj [(''pages'', JArr [JObj
       [(''markdown'', JStr ''![](../images/image_0000000000.jpeg)''),
        (''images'', JArr [JObj [(''id'', JStr ''../images/image_0000000000.jpeg''),
                                 (''image_base64'', JStr ''Qg=='')]])]])]"

section \<open>Properties of the stitcher: skipped entries, skipped pages, payloads\<close>

lemma process_image_skip:
  "\<not> truthy (dict_get kvs ''id'') \<or> \<not> truthy (dict_get kvs ''image_base64'') \<Longrightarrow>
   process_image env fname md st (JObj kvs) = ImgSkip"
  by (auto simp add: process_image_def Let_def)

lemma process_images_drop_skipped:
  assumes "\<And>md st. process_image env fname md st x = ImgSkip"
  shows "process_images env fname (pre @ x # post) md st = process_images env fname (pre @ post) md st"
  using assms by (induction pre arbitrary: md st) (auto split: img_step.splits)

text \<open>
  Claim C10. An image entry whose \<open>id\<close> or \<open>image_base64\<close> field is missing or empty
  (any value that Python takes as false) is skipped by the \<open>continue\<close> of line 158: the
  step is \<open>ImgSkip\<close>, which carries no state, so nothing is logged, no file is written,
  the counter keeps its value and the page text is not rewritten; the loop over the
  images gives the result it gives without the entry.
\<close>

theorem skip_incomplete_image_entry:
  "\<not> truthy (dict_get kvs ''id'') \<or> \<not> truthy (dict_get kvs ''image_base64'') \<Longrightarrow>
   process_image env fname md st (JObj kvs) = ImgSkip \<and>
   process_images env fname (pre @ JObj kvs # post) md st = process_images env fname (pre @ post) md st"
  using process_image_skip process_images_drop_skipped by blast

theorem skip_incomplete_image_entry_witness:
  "\<not> truthy (dict_get [(''image_base64'', JStr ''QQ=='')] ''id'') \<and>
   process_image example_env ''a.json'' (JStr ''See ![](img1)'') initial_state
     (JObj [(''image_base64'', JStr ''QQ=='')]) = ImgSkip \<and>
   process_images example_env ''a.json''
     ([example_image] @ JObj [(''image_base64'', JStr ''QQ=='')] # [example_image_2])
     (JStr ''See ![](img1)'') initial_state =
   process_images example_env ''a.json'' ([example_image] @ [example_image_2])
     (JStr ''See ![](img1)'') initial_state"
proof -
  have h: "\<not> truthy (dict_get [(''image_base64'', JStr ''QQ=='')] ''id'')"
    by (simp add: dict_get_def)
  then have "\<not> truthy (dict_get [(''image_base64'', JStr ''QQ=='')] ''id'') \<or>
    \<not> truthy (dict_get [(''image_base64'', JStr ''QQ=='')] ''image_base64'')" ..
  from skip_incomplete_image_entry [OF this] h show ?thesis by blast
qed

lemma process_image_md_out:
  "process_image env fname md st x = ImgError st' \<Longrightarrow> md_out st' = md_out st"
  "process_image env fname md st x = ImgDone md' st' \<Longrightarrow> md_out st' = md_out st"
  by (auto simp add: process_image_def Let_def log_img_error_def split: json.splits if_splits option.splits prod.splits)

lemma process_image_text:
  "process_image env fname (JStr m) st x = ImgDone md' st' \<Longrightarrow> \<exists>m'. md' = JStr m'"
  by (auto simp add: process_image_def Let_def log_img_error_def split: json.splits if_splits option.splits prod.splits)














section \<open>Records that are not objects\<close>

lemma same_core:
  "core st = core st2 \<Longrightarrow> st2 = st\<lparr>logs := logs st2\<rparr>"
  by (simp add: core_def)

lemma process_image_relog:
  "img_rel (process_image env fname md st x) (process_image env fname md (st\<lparr>logs := l\<rparr>) x)"
  by (simp add: process_image_def Let_def log_img_error_def core_def
      split: json.split option.split prod.split)

lemma process_image_core:
  "core st = core st2 \<Longrightarrow>
   img_rel (process_image env fname md st x) (process_image env fname md st2 x)"
  using process_image_relog [of env fname md st x "logs st2"] same_core [of st st2] by simp

lemma img_rel_cases:
  "img_rel a b \<Longrightarrow>
     (a = ImgRaise \<and> b = ImgRaise) \<or> (a = ImgSkip \<and> b = ImgSkip) \<or>
     (\<exists>s s'. a = ImgError s \<and> b = ImgError s' \<and> core s = core s') \<or>
     (\<exists>m s s'. a = ImgDone m s \<and> b = ImgDone m s' \<and> core s = core s')"
  by (cases a; cases b) simp_all

lemma process_images_core:
  "core st = core st2 \<Longrightarrow>
   imgs_rel (process_images env fname imgs md st) (process_images env fname imgs md st2)"
proof (induction imgs arbitrary: md st st2)
  case Nil
  then show ?case by simp
next
  case (Cons x imgs)
  have "img_rel (process_image env fname md st x) (process_image env fname md st2 x)"
    using Cons.prems by (rule process_image_core)
  then consider
      (raise) "process_image env fname md st x = ImgRaise" "process_image env fname md st2 x = ImgRaise"
    | (skip) "process_image env fname md st x = ImgSkip" "process_image env fname md st2 x = ImgSkip"
    | (err) s s' where "process_image env fname md st x = ImgError s"
        "process_image env fname md st2 x = ImgError s'" "core s = core s'"
    | (completed) m s s' where "process_image env fname md st x = ImgDone m s"
        "process_image env fname md st2 x = ImgDone m s'" "core s = core s'"
    using img_rel_cases by blast
  then show ?case
  proof cases
    case raise
    then show ?thesis using Cons.prems by simp
  next
    case skip
    then show ?thesis using Cons.IH [OF Cons.prems] by simp
  next
    case err
    then show ?thesis using Cons.IH [of s s'] by simp
  next
    case completed
    then show ?thesis using Cons.IH [of s s'] by simp
  qed
qed

lemma imgs_rel_cases:
  "imgs_rel a b \<Longrightarrow>
     (\<exists>s s'. a = Inl s \<and> b = Inl s' \<and> core s = core s') \<or>
     (\<exists>m s s'. a = Inr (m, s) \<and> b = Inr (m, s') \<and> core s = core s')"
  by (cases a; cases b) auto

lemma process_page_core:
  assumes c: "core st = core st2"
  shows "page_rel (process_page env fname st x) (process_page env fname st2 x)"
proof (cases x)
  case (JObj kvs)
  show ?thesis
  proof (cases "truthy (dict_get kvs ''markdown'')")
    case False
    with JObj show ?thesis by (simp add: process_page_def)
  next
    case True
    show ?thesis
    proof (cases "py_iter (dict_get_or kvs ''images'' (JArr []))")
      case None
      with JObj True c show ?thesis by (simp add: process_page_def)
    next
      case (Some imgs)
      let ?md = "dict_get kvs ''markdown''"
      have "imgs_rel (process_images env fname imgs ?md st) (process_images env fname imgs ?md st2)"
        using c by (rule process_images_core)
      then consider
          (raise) s s' where "process_images env fname imgs ?md st = Inl s"
            "process_images env fname imgs ?md st2 = Inl s'" "core s = core s'"
        | (ended) m s s' where "process_images env fname imgs ?md st = Inr (m, s)"
            "process_images env fname imgs ?md st2 = Inr (m, s')" "core s = core s'"
        using imgs_rel_cases by blast
      then show ?thesis
      proof cases
        case raise
        with JObj True Some show ?thesis by (simp add: process_page_def)
      next
        case ended
        with JObj True Some show ?thesis
          by (cases m) (simp_all add: process_page_def core_def)
      qed
    qed
  qed
qed (simp_all add: process_page_def c)

lemma page_rel_cases:
  "page_rel a b \<Longrightarrow>
     (\<exists>s s'. a = PageRaise s \<and> b = PageRaise s' \<and> core s = core s') \<or>
     (a = PageSkip \<and> b = PageSkip) \<or>
     (\<exists>s s'. a = PageDone s \<and> b = PageDone s' \<and> core s = core s')"
  by (cases a; cases b) simp_all

lemma process_pages_core:
  "core st = core st2 \<Longrightarrow>
   pages_rel (process_pages env fname pages st) (process_pages env fname pages st2)"
proof (induction pages arbitrary: st st2)
  case Nil
  then show ?case by simp
next
  case (Cons x pages)
  have "page_rel (process_page env fname st x) (process_page env fname st2 x)"
    using Cons.prems by (rule process_page_core)
  then consider
      (raise) s s' where "process_page env fname st x = PageRaise s"
        "process_page env fname st2 x = PageRaise s'" "core s = core s'"
    | (skip) "process_page env fname st x = PageSkip" "process_page env fname st2 x = PageSkip"
    | (completed) s s' where "process_page env fname st x = PageDone s"
        "process_page env fname st2 x = PageDone s'" "core s = core s'"
    using page_rel_cases by blast
  then show ?case
  proof cases
    case raise
    then show ?thesis by simp
  next
    case skip
    then show ?thesis using Cons.IH [OF Cons.prems] by simp
  next
    case completed
    then show ?thesis using Cons.IH [of s s'] by simp
  qed
qed

lemma pages_rel_cases:
  "pages_rel a b \<Longrightarrow>
     (\<exists>s s'. a = Inl s \<and> b = Inl s' \<and> core s = core s') \<or>
     (\<exists>s s'. a = Inr s \<and> b = Inr s' \<and> core s = core s')"
  by (cases a; cases b) simp_all

lemma log_record_error_core:
  "core (log_record_error fname st) = core st"
  by (simp add: log_record_error_def core_def)

lemma stitch_record_core:
  assumes ab: "core a = core b"
  shows "core (stitch_record env fname content a) = core (stitch_record env fname content b)"
proof (cases content)
  case None
  with ab show ?thesis by (simp add: stitch_record_def log_record_error_core)
next
  case (Some j)
  show ?thesis
  proof (cases j)
    case (JObj kvs)
    show ?thesis
    proof (cases "py_iter (dict_get_or kvs ''pages'' (JArr []))")
      case None
      with ab Some JObj show ?thesis by (simp add: stitch_record_def log_record_error_core)
    next
      case (Some pages)
      have "pages_rel (process_pages env fname pages a) (process_pages env fname pages b)"
        using ab by (rule process_pages_core)
      then consider
          (raise) s s' where "process_pages env fname pages a = Inl s"
            "process_pages env fname pages b = Inl s'" "core s = core s'"
        | (ended) s s' where "process_pages env fname pages a = Inr s"
            "process_pages env fname pages b = Inr s'" "core s = core s'"
        using pages_rel_cases by blast
      then show ?thesis
      proof cases
        case raise
        with \<open>content = Some j\<close> JObj Some show ?thesis
          by (simp add: stitch_record_def log_record_error_core)
      next
        case ended
        with \<open>content = Some j\<close> JObj Some show ?thesis
          by (simp add: stitch_record_def)
      qed
    qed
  qed (use ab Some in \<open>simp_all add: stitch_record_def core_def\<close>)
qed

lemma process_record_core:
  "core st = core st2 \<Longrightarrow>
   core (process_record env n st (i, fname, content)) =
   core (process_record env n2 st2 (i2, fname, content))"
proof -
  assume c: "core st = core st2"
  have "core (announce env i n fname st) = core (announce env i2 n2 fname st2)"
    using c by (simp add: announce_def core_def)
  then have "core (stitch_record env fname content (announce env i n fname st)) =
      core (stitch_record env fname content (announce env i2 n2 fname st2))"
    by (rule stitch_record_core)
  then show ?thesis by (simp only: process_record_def prod.case)
qed

lemma foldl_records_core:
  "core st = core st2 \<Longrightarrow>
   core (foldl (process_record env n) st (enumerate i files)) =
   core (foldl (process_record env n2) st2 (enumerate i2 files))"
proof (induction files arbitrary: st st2 i i2)
  case Nil
  then show ?case by simp
next
  case (Cons f files)
  obtain fname content where f: "f = (fname, content)" by (cases f)
  have "core (process_record env n st (i, fname, content)) =
        core (process_record env n2 st2 (i2, fname, content))"
    using Cons.prems by (rule process_record_core)
  then have "core (foldl (process_record env n) (process_record env n st (i, fname, content))
                 (enumerate (Suc i) files)) =
      core (foldl (process_record env n2) (process_record env n2 st2 (i2, fname, content))
                 (enumerate (Suc i2) files))"
    by (rule Cons.IH)
  then show ?case by (simp only: f enumerate_simps foldl_Cons)
qed

lemma stitch_core:
  "core (stitch_ocr_data env files) =
   core (foldl (process_record env (length files)) initial_state (enumerate 0 files))"
  by (simp add: stitch_ocr_data_def Let_def core_def)

lemma not_dict_record:
  "\<not> is_dict j \<Longrightarrow>
   stitch_record env fname (Some j) st = st\<lparr>logs := logs st @ [WarnNonDict fname]\<rparr>"
  by (cases j) (simp_all add: stitch_record_def)

lemma logs_grow_image:
  "process_image env fname md st x = ImgError st' \<Longrightarrow> set (logs st) \<subseteq> set (logs st')"
  "process_image env fname md st x = ImgDone md' st' \<Longrightarrow> set (logs st) \<subseteq> set (logs st')"
  by (auto simp add: process_image_def Let_def log_img_error_def
      split: json.splits if_splits option.splits prod.splits)

lemma logs_grow_images:
  "process_images env fname imgs md st = Inl st' \<Longrightarrow> set (logs st) \<subseteq> set (logs st')"
  "process_images env fname imgs md st = Inr (md', st') \<Longrightarrow> set (logs st) \<subseteq> set (logs st')"
proof (induction imgs arbitrary: md st)
  case Nil
  { case 1 then show ?case by simp }
  { case 2 then show ?case by simp }
next
  case (Cons x imgs)
  { case 1
    then show ?case using Cons.IH(1) logs_grow_image [of env fname md st x]
      by (cases "process_image env fname md st x") (auto dest!: Cons.IH(1)) }
  { case 2
    then show ?case using logs_grow_image [of env fname md st x]
      by (cases "process_image env fname md st x") (auto dest!: Cons.IH(2)) }
qed

lemma logs_grow_page:
  "process_page env fname st x = PageRaise st' \<Longrightarrow> set (logs st) \<subseteq> set (logs st')"
  "process_page env fname st x = PageDone st' \<Longrightarrow> set (logs st) \<subseteq> set (logs st')"
  by (auto simp add: process_page_def Let_def
      split: json.splits if_splits option.splits prod.splits sum.splits
      dest!: logs_grow_images)

lemma logs_grow_pages:
  "process_pages env fname pages st = Inl st' \<Longrightarrow> set (logs st) \<subseteq> set (logs st')"
  "process_pages env fname pages st = Inr st' \<Longrightarrow> set (logs st) \<subseteq> set (logs st')"
proof (induction pages arbitrary: st)
  case Nil
  { case 1 then show ?case by simp }
  { case 2 then show ?case by simp }
next
  case (Cons x pages)
  { case 1
    then show ?case using logs_grow_page [of env fname st x]
      by (cases "process_page env fname st x") (auto dest!: Cons.IH(1)) }
  { case 2
    then show ?case using logs_grow_page [of env fname st x]
      by (cases "process_page env fname st x") (auto dest!: Cons.IH(2)) }
qed

lemma logs_grow_record:
  "set (logs st) \<subseteq> set (logs (stitch_record env fname content st))"
  by (auto simp add: stitch_record_def log_record_error_def
      split: json.splits option.splits sum.splits dest!: logs_grow_pages)

lemma logs_grow_process_record:
  "set (logs st) \<subseteq> set (logs (process_record env n st (i, fname, content)))"
proof -
  have "set (logs st) \<subseteq> set (logs (announce env i n fname st))"
    by (auto simp add: announce_def)
  also have "\<dots> \<subseteq> set (logs (stitch_record env fname content (announce env i n fname st)))"
    by (rule logs_grow_record)
  finally show ?thesis by (simp only: process_record_def prod.case)
qed

lemma logs_grow_foldl:
  "set (logs st) \<subseteq> set (logs (foldl (process_record env n) st (enumerate i files)))"
proof (induction files arbitrary: st i)
  case Nil
  then show ?case by simp
next
  case (Cons f files)
  obtain fname content where f: "f = (fname, content)" by (cases f)
  have "set (logs st) \<subseteq> set (logs (process_record env n st (i, fname, content)))"
    by (rule logs_grow_process_record)
  also have "\<dots> \<subseteq> set (logs (foldl (process_record env n)
      (process_record env n st (i, fname, content)) (enumerate (Suc i) files)))"
    by (rule Cons.IH)
  finally show ?case by (simp only: f enumerate_simps foldl_Cons)
qed

text \<open>
  Claim C8. A record whose parsed value is not an object only queues the warning:
  the run over a list of files that contains it produces the same merged text, the
  same asset files and the same counter as the run over the list without it, and the
  warning for that file is among the queued calls.
\<close>

theorem non_object_record_skipped:
  "\<not> is_dict j \<Longrightarrow>
   stitch_record env fname (Some j) st = st\<lparr>logs := logs st @ [WarnNonDict fname]\<rparr> \<and>
   core (stitch_ocr_data env (pre @ (fname, Some j) # post)) = core (stitch_ocr_data env (pre @ post)) \<and>
   WarnNonDict fname \<in> set (logs (stitch_ocr_data env (pre @ (fname, Some j) # post)))"
proof (intro conjI)
  assume nd: "\<not> is_dict j"
  let ?n = "length (pre @ (fname, Some j) # post)"
  let ?f = "process_record env ?n"
  let ?s1 = "foldl ?f initial_state (enumerate 0 pre)"
  let ?s2 = "?f ?s1 (length pre, fname, Some j)"
  show step: "stitch_record env fname (Some j) st = st\<lparr>logs := logs st @ [WarnNonDict fname]\<rparr>"
    using nd by (rule not_dict_record)
  have s2: "?s2 = (announce env (length pre) ?n fname ?s1)
      \<lparr>logs := logs (announce env (length pre) ?n fname ?s1) @ [WarnNonDict fname]\<rparr>"
    unfolding process_record_def prod.case by (rule not_dict_record [OF nd])
  have whole: "foldl ?f initial_state (enumerate 0 (pre @ (fname, Some j) # post)) =
      foldl ?f ?s2 (enumerate (Suc (length pre)) post)"
    by (simp add: enumerate_append_eq)
  have c12: "core ?s2 = core ?s1"
    unfolding s2 by (simp add: core_def announce_def)
  have "core (foldl ?f ?s2 (enumerate (Suc (length pre)) post)) =
        core (foldl (process_record env (length (pre @ post)))
               (foldl (process_record env (length (pre @ post))) initial_state (enumerate 0 pre))
               (enumerate (length pre) post))"
  proof (rule foldl_records_core)
    have "core ?s1 = core (foldl (process_record env (length (pre @ post))) initial_state (enumerate 0 pre))"
      by (rule foldl_records_core) simp
    with c12 show "core ?s2 = core (foldl (process_record env (length (pre @ post))) initial_state (enumerate 0 pre))"
      by simp
  qed
  then show "core (stitch_ocr_data env (pre @ (fname, Some j) # post)) = core (stitch_ocr_data env (pre @ post))"
    unfolding stitch_core whole by (simp add: enumerate_append_eq)
  have "WarnNonDict fname \<in> set (logs ?s2)" unfolding s2 by simp
  then have "WarnNonDict fname \<in> set (logs (foldl ?f ?s2 (enumerate (Suc (length pre)) post)))"
    using logs_grow_foldl by blast
  then show "WarnNonDict fname \<in> set (logs (stitch_ocr_data env (pre @ (fname, Some j) # post)))"
    unfolding whole [symmetric] by (simp add: stitch_ocr_data_def Let_def)
qed

theorem non_object_record_skipped_witness:
  "\<not> is_dict (JArr [example_record_a]) \<and>
   core (stitch_ocr_data example_env
     ([(''a.json'', Some example_record_a)] @ (''list.json'', Some (JArr [example_record_a])) #
      [(''b.json'', Some example_record_b)])) =
   core (stitch_ocr_data example_env
     ([(''a.json'', Some example_record_a)] @ [(''b.json'', Some example_record_b)])) \<and>
   WarnNonDict ''list.json'' \<in> set (logs (stitch_ocr_data example_env
     ([(''a.json'', Some example_record_a)] @ (''list.json'', Some (JArr [example_record_a])) #
      [(''b.json'', Some example_record_b)])))"
proof -
  have h: "\<not> is_dict (JArr [example_record_a])" by simp
  from non_object_record_skipped [OF h] h show ?thesis by blast
qed

section \<open>The asset counter\<close>

lemma digit_char_props:
  "d < 10 \<Longrightarrow> is_digit (digit_char d) \<and> (of_char (digit_char d) :: nat) - 48 = d"
  by (simp add: digit_char_def is_digit_def)



lemma dec_digits_all_digits: "list_all is_digit (dec_digits n)"
proof (induction n rule: dec_digits.induct)
  case (1 n)
  show ?case
  proof (cases "n < 10")
    case True
    then show ?thesis using digit_char_props [of n] by (simp add: dec_digits.simps [of n])
  next
    case False
    then have "list_all is_digit (dec_digits (n div 10))" using 1 by simp
    then show ?thesis using False digit_char_props [of "n mod 10"]
      by (simp add: dec_digits.simps [of n])
  qed
qed



lemma pad10_all_digits: "list_all is_digit (pad10 n)"
  using dec_digits_all_digits [of n] by (auto simp add: pad10_def list_all_iff is_digit_def)



lemma numbered_logs [simp]: "numbered (st\<lparr>logs := l\<rparr>) = numbered st"
  by (simp add: numbered_def)

lemma numbered_md_out [simp]: "numbered (st\<lparr>md_out := t\<rparr>) = numbered st"
  by (simp add: numbered_def)












text \<open>The example of the specification, evaluated.\<close>

lemma example_run:
  "core (stitch_ocr_data example_env
     [(''a.json'', Some example_record_a), (''b.json'', Some example_record_b)]) =
   (''See ![](../images/image_0000000000.png)'' @ blank_line @ ''Done.'' @ blank_line,
    [(''image_0000000000.png'', ''A'')], 1)"
  by code_simp

section \<open>Determinism of a stitch run\<close>

lemma foldl_writes:
  "foldl write_file d ws = d ++ map_of (rev ws)"
proof (induction ws arbitrary: d)
  case Nil
  then show ?case by simp
next
  case (Cons w ws)
  have "write_file d w ++ map_of (rev ws) = d ++ map_of (rev (w # ws))"
    by (rule ext) (simp add: write_file_def map_add_def split: option.split)
  then show ?case using Cons.IH [of "write_file d w"] by simp
qed

lemma map_add_twice: "(d ++ m) ++ m = d ++ m"
  by (rule ext) (simp add: map_add_def split: option.split)

text \<open>
  Claim C6. A stitch run is a function of the records and of what the run calls
  outside the repository: the merged document does not depend on what the output
  locations held before; two runs into empty asset directories leave the same document
  and the same asset files, whatever was there before, also when the second run follows
  the first; and a second run into the same locations changes nothing.
\<close>

theorem stitch_deterministic:
  "merged_document (run_stitch env json_files w1) = merged_document (run_stitch env json_files w2) \<and>
   run_stitch env json_files (w1\<lparr>asset_dir := Map.empty\<rparr>) =
     run_stitch env json_files (w2\<lparr>asset_dir := Map.empty\<rparr>) \<and>
   run_stitch env json_files ((run_stitch env json_files w1)\<lparr>asset_dir := Map.empty\<rparr>) =
     run_stitch env json_files (w1\<lparr>asset_dir := Map.empty\<rparr>) \<and>
   run_stitch env json_files (run_stitch env json_files w1) = run_stitch env json_files w1"
  by (simp add: run_stitch_def Let_def foldl_writes map_add_twice)

section \<open>Replacement of the references to an image\<close>


lemma sublist_skip_prefix:
  "c \<notin> set u \<Longrightarrow> sublist (c # q) (u @ v) \<Longrightarrow> sublist (c # q) v"
proof (induction u)
  case Nil
  then show ?case by simp
next
  case (Cons a u)
  from Cons.prems(2) have "prefix (c # q) (a # u @ v) \<or> sublist (c # q) (u @ v)"
    by (simp only: append_Cons sublist_Cons_right)
  moreover have "\<not> prefix (c # q) (a # u @ v)" using Cons.prems(1) by simp
  ultimately have "sublist (c # q) (u @ v)" by blast
  then show ?case using Cons.IH Cons.prems(1) by simp
qed

lemma sublist_ConsI:
  "prefix q (x # xs) \<or> sublist q xs \<Longrightarrow> sublist q (x # xs)"
  by (simp only: sublist_Cons_right)

lemma sublist_ConsE:
  assumes "sublist q (x # xs)"
  obtains "prefix q (x # xs)" | "sublist q xs"
  using assms by (simp only: sublist_Cons_right) blast

lemma sublist_ConsN:
  "\<not> sublist q xs \<Longrightarrow> \<not> prefix q (x # xs) \<Longrightarrow> \<not> sublist q (x # xs)"
  by (simp only: sublist_Cons_right) blast

lemma replace_all_match:
  "prefix old (x # xs) \<Longrightarrow>
   replace_all (x # xs) old new = new @ replace_all (drop (length old - 1) xs) old new"
  by simp

lemma replace_all_no_match:
  "\<not> prefix old (x # xs) \<Longrightarrow> replace_all (x # xs) old new = x # replace_all xs old new"
  by simp

lemma prefix_replace_all:
  "c \<notin> set q \<Longrightarrow> prefix q (replace_all s old (c # r)) \<Longrightarrow> prefix q s"
proof (induction s arbitrary: q)
  case Nil
  then show ?case by simp
next
  case (Cons x xs)
  note IH = Cons.IH and prems = Cons.prems
  show ?case
  proof (cases "prefix old (x # xs)")
    case True
    have "prefix q (c # r @ replace_all (drop (length old - 1) xs) old (c # r))"
      using prems(2) unfolding replace_all_match [OF True] by simp
    with prems(1) have "q = []" by (cases q) simp_all
    then show ?thesis by simp
  next
    case False
    have p: "prefix q (x # replace_all xs old (c # r))"
      using prems(2) unfolding replace_all_no_match [OF False] .
    show ?thesis
    proof (cases q)
      case Nil
      then show ?thesis by simp
    next
      case (Cons y q')
      with p have "y = x" "prefix q' (replace_all xs old (c # r))" by simp_all
      moreover have "c \<notin> set q'" using prems(1) Cons by simp
      ultimately show ?thesis using IH [of q'] Cons by simp
    qed
  qed
qed

lemma sublist_replace_all:
  assumes "c \<notin> set q" "c \<notin> set r" "\<And>rest. \<not> prefix q (r @ rest)"
  shows "sublist (c # q) (replace_all s old (c # r)) \<Longrightarrow> sublist (c # q) s"
proof (induction "length s" arbitrary: s rule: less_induct)
  case less
  show ?case
  proof (cases s)
    case Nil
    with less.prems show ?thesis by simp
  next
    case (Cons x xs)
    show ?thesis
    proof (cases "prefix old (x # xs)")
      case True
      let ?rec = "replace_all (drop (length old - 1) xs) old (c # r)"
      have "sublist (c # q) (c # (r @ ?rec))"
        using less.prems unfolding Cons replace_all_match [OF True] by simp
      then have "prefix (c # q) (c # (r @ ?rec)) \<or> sublist (c # q) (r @ ?rec)"
        by (rule sublist_ConsE) blast+
      moreover have "\<not> prefix (c # q) (c # (r @ ?rec))" using assms(3) by simp
      ultimately have "sublist (c # q) (r @ ?rec)" by blast
      then have "sublist (c # q) ?rec" using assms(2) by (rule sublist_skip_prefix [rotated])
      moreover have "length (drop (length old - 1) xs) < length s" using Cons by simp
      ultimately have "sublist (c # q) (drop (length old - 1) xs)" using less.hyps by blast
      then have "sublist (c # q) xs"
        by (rule sublist_order.order_trans [OF _ sublist_drop])
      then show ?thesis unfolding Cons by (rule sublist_ConsI [OF disjI2])
    next
      case False
      have "sublist (c # q) (x # replace_all xs old (c # r))"
        using less.prems unfolding Cons replace_all_no_match [OF False] .
      then consider (here) "prefix (c # q) (x # replace_all xs old (c # r))"
        | (later) "sublist (c # q) (replace_all xs old (c # r))"
        by (rule sublist_ConsE)
      then show ?thesis
      proof cases
        case here
        then have xc: "x = c" and "prefix q (replace_all xs old (c # r))" by auto
        then have "prefix q xs" using assms(1) prefix_replace_all by blast
        then have "prefix (c # q) (x # xs)" using xc by simp
        then show ?thesis unfolding Cons by (rule sublist_ConsI [OF disjI1])
      next
        case later
        moreover have "length xs < length s" using Cons by simp
        ultimately have "sublist (c # q) xs" using less.hyps by blast
        then show ?thesis unfolding Cons by (rule sublist_ConsI [OF disjI2])
      qed
    qed
  qed
qed

lemma replace_all_removes:
  assumes "c \<notin> set q" "c \<notin> set r" "\<And>rest. \<not> prefix q (r @ rest)"
  shows "\<not> sublist (c # q) (replace_all s (c # q) (c # r))"
proof (induction "length s" arbitrary: s rule: less_induct)
  case less
  show ?case
  proof (cases s)
    case Nil
    then show ?thesis by simp
  next
    case (Cons x xs)
    show ?thesis
    proof (cases "prefix (c # q) (x # xs)")
      case True
      let ?rec = "replace_all (drop (length (c # q) - 1) xs) (c # q) (c # r)"
      have "length (drop (length (c # q) - 1) xs) < length s" using Cons by simp
      then have "\<not> sublist (c # q) ?rec" using less.hyps by blast
      then have "\<not> sublist (c # q) (r @ ?rec)"
        using sublist_skip_prefix [OF assms(2), of q ?rec] by (rule contrapos_nn)
      moreover have "\<not> prefix (c # q) (c # (r @ ?rec))" using assms(3) by simp
      ultimately have "\<not> sublist (c # q) (c # (r @ ?rec))"
        by (rule sublist_ConsN)
      then show ?thesis unfolding Cons replace_all_match [OF True] by simp
    next
      case False
      have "length xs < length s" using Cons by simp
      then have "\<not> sublist (c # q) (replace_all xs (c # q) (c # r))" using less.hyps by blast
      moreover have "\<not> prefix (c # q) (x # replace_all xs (c # q) (c # r))"
      proof
        assume "prefix (c # q) (x # replace_all xs (c # q) (c # r))"
        then have xc: "x = c" and "prefix q (replace_all xs (c # q) (c # r))" by auto
        then have "prefix q xs" using assms(1) prefix_replace_all by blast
        with xc False show False by simp
      qed
      ultimately have "\<not> sublist (c # q) (x # replace_all xs (c # q) (c # r))"
        by (rule sublist_ConsN)
      then show ?thesis unfolding Cons replace_all_no_match [OF False] .
    qed
  qed
qed


lemma closing_paren_prefix:
  "prefix (a @ [p]) (b @ p # rest) \<Longrightarrow> a = b \<or> p \<in> set a \<or> p \<in> set b"
proof (induction a arbitrary: b)
  case Nil
  then show ?case by (cases b) auto
next
  case (Cons y a)
  then show ?case by (cases b) auto
qed

lemma bare_tail_incomparable:
  assumes "plain a" "plain b" "a \<noteq> b"
  shows "\<not> prefix (''[]('' @ a @ '')'') ((''[]('' @ b @ '')'') @ rest)"
proof
  assume "prefix (''[]('' @ a @ '')'') ((''[]('' @ b @ '')'') @ rest)"
  then have "prefix (a @ [CHR '')'']) (b @ CHR '')'' # rest)" by simp
  then have "a = b \<or> CHR '')'' \<in> set a \<or> CHR '')'' \<in> set b" by (rule closing_paren_prefix)
  with assms show False by (simp add: plain_def)
qed

lemma named_tail_incomparable:
  assumes "a \<noteq> []" "\<not> prefix '']'' a"
  shows "\<not> prefix (''['' @ a @ '']('' @ a @ '')'') ((''[]('' @ b @ '')'') @ rest)"
  using assms by (cases a) auto

lemma bare_ref_Cons: "bare_ref x = CHR ''!'' # (''[]('' @ x @ '')'')"
  by (simp add: bare_ref_def)

lemma named_ref_Cons: "named_ref x = CHR ''!'' # (''['' @ x @ '']('' @ x @ '')'')"
  by (simp add: named_ref_def)

lemma plain_tails:
  "plain x \<Longrightarrow> CHR ''!'' \<notin> set (''[]('' @ x @ '')'')"
  "plain x \<Longrightarrow> CHR ''!'' \<notin> set (''['' @ x @ '']('' @ x @ '')'')"
  by (simp_all add: plain_def)

lemma py_replace_ref:
  "py_replace s (bare_ref x) new = replace_all s (bare_ref x) new"
  "py_replace s (named_ref x) new = replace_all s (named_ref x) new"
  by (simp_all add: py_replace_def bare_ref_def named_ref_def)

lemma link_keeps_bare_out:
  assumes "plain a" "plain b" "a \<noteq> b" and n: "\<not> sublist (bare_ref a) s"
  shows "\<not> sublist (bare_ref a) (replace_all s old (bare_ref b))"
proof
  let ?q = "''[]('' @ a @ '')''" and ?r = "''[]('' @ b @ '')''"
  have q: "CHR ''!'' \<notin> set ?q" using assms(1) by (rule plain_tails(1))
  have r: "CHR ''!'' \<notin> set ?r" using assms(2) by (rule plain_tails(1))
  have inc: "\<And>rest. \<not> prefix ?q (?r @ rest)" using assms(1-3) by (rule bare_tail_incomparable)
  assume "sublist (bare_ref a) (replace_all s old (bare_ref b))"
  then have "sublist (CHR ''!'' # ?q) (replace_all s old (CHR ''!'' # ?r))"
    unfolding bare_ref_Cons .
  then have "sublist (CHR ''!'' # ?q) s" by (rule sublist_replace_all [OF q r inc])
  then have "sublist (bare_ref a) s" unfolding bare_ref_Cons .
  with n show False by (rule notE)
qed

lemma link_keeps_named_out:
  assumes "plain a" "plain b" "a \<noteq> []" "\<not> prefix '']'' a" and n: "\<not> sublist (named_ref a) s"
  shows "\<not> sublist (named_ref a) (replace_all s old (bare_ref b))"
proof
  let ?q = "''['' @ a @ '']('' @ a @ '')''" and ?r = "''[]('' @ b @ '')''"
  have q: "CHR ''!'' \<notin> set ?q" using assms(1) by (rule plain_tails(2))
  have r: "CHR ''!'' \<notin> set ?r" using assms(2) by (rule plain_tails(1))
  have inc: "\<And>rest. \<not> prefix ?q (?r @ rest)" using assms(3,4) by (rule named_tail_incomparable)
  assume "sublist (named_ref a) (replace_all s old (bare_ref b))"
  then have "sublist (CHR ''!'' # ?q) (replace_all s old (CHR ''!'' # ?r))"
    unfolding bare_ref_Cons named_ref_Cons .
  then have "sublist (CHR ''!'' # ?q) s" by (rule sublist_replace_all [OF q r inc])
  then have "sublist (named_ref a) s" unfolding named_ref_Cons .
  with n show False by (rule notE)
qed

lemma link_replaces_bare:
  assumes "plain a" "plain b" "a \<noteq> b"
  shows "\<not> sublist (bare_ref a) (replace_all s (bare_ref a) (bare_ref b))"
proof -
  let ?q = "''[]('' @ a @ '')''" and ?r = "''[]('' @ b @ '')''"
  have q: "CHR ''!'' \<notin> set ?q" using assms(1) by (rule plain_tails(1))
  have r: "CHR ''!'' \<notin> set ?r" using assms(2) by (rule plain_tails(1))
  have inc: "\<And>rest. \<not> prefix ?q (?r @ rest)" using assms(1-3) by (rule bare_tail_incomparable)
  have "\<not> sublist (CHR ''!'' # ?q) (replace_all s (CHR ''!'' # ?q) (CHR ''!'' # ?r))"
    by (rule replace_all_removes [OF q r inc])
  then show ?thesis unfolding bare_ref_Cons .
qed

lemma link_replaces_named:
  assumes "plain a" "plain b" "a \<noteq> []" "\<not> prefix '']'' a"
  shows "\<not> sublist (named_ref a) (replace_all s (named_ref a) (bare_ref b))"
proof -
  let ?q = "''['' @ a @ '']('' @ a @ '')''" and ?r = "''[]('' @ b @ '')''"
  have q: "CHR ''!'' \<notin> set ?q" using assms(1) by (rule plain_tails(2))
  have r: "CHR ''!'' \<notin> set ?r" using assms(2) by (rule plain_tails(1))
  have inc: "\<And>rest. \<not> prefix ?q (?r @ rest)" using assms(3,4) by (rule named_tail_incomparable)
  have "\<not> sublist (CHR ''!'' # ?q) (replace_all s (CHR ''!'' # ?q) (CHR ''!'' # ?r))"
    by (rule replace_all_removes [OF q r inc])
  then show ?thesis unfolding bare_ref_Cons named_ref_Cons .
qed



lemma plain_append [simp]: "plain (xs @ ys) = (plain xs \<and> plain ys)"
  by (auto simp: plain_def)

lemma plain_digits: "list_all is_digit ds \<Longrightarrow> plain ds"
  by (induction ds) (auto simp: plain_def is_digit_def)

lemma plain_alnum: "list_all is_alnum_char s \<Longrightarrow> plain s"
  by (induction s) (auto simp: plain_def is_alnum_char_def Let_def)

lemma plain_image_type: "plain (fst (parse_payload uri))"
proof -
  have j: "plain ''jpeg''" by (simp add: plain_def)
  show ?thesis
    using j by (auto simp add: parse_payload_def Let_def isalnum_def intro: plain_alnum)
qed

lemma plain_asset_name: "plain e \<Longrightarrow> plain (asset_name n e)"
  using plain_digits [OF pad10_all_digits [of n]]
  by (simp add: asset_name_def) (simp add: plain_def)

lemma plain_link:
  "plain (rel_dir env) \<Longrightarrow> plain (rel_dir env @ asset_name n (fst (parse_payload uri)))"
  by (simp add: plain_asset_name plain_image_type)

lemma safe_id_not_link:
  "safe_id env a \<Longrightarrow> a \<noteq> rel_dir env @ asset_name n e"
  by (auto simp add: safe_id_def asset_name_def)

lemma process_image_done:
  assumes "process_image env fname (JStr t) st x = ImgDone md' st'"
  shows "\<exists>kvs uri image_bytes.
     x = JObj kvs \<and> dict_get kvs ''image_base64'' = JStr uri \<and>
     b64decode env (snd (parse_payload uri)) = Some image_bytes \<and>
     st' = st\<lparr>writes := writes st @
               [(asset_name (counter st) (fst (parse_payload uri)), image_bytes)],
             counter := Suc (counter st)\<rparr> \<and>
     md' = JStr (py_replace
              (py_replace t (bare_ref (fmt env (dict_get kvs ''id'')))
                 (bare_ref (rel_dir env @ asset_name (counter st) (fst (parse_payload uri)))))
              (named_ref (fmt env (dict_get kvs ''id'')))
              (bare_ref (rel_dir env @ asset_name (counter st) (fst (parse_payload uri)))))"
  using assms
  by (auto simp add: process_image_def Let_def log_img_error_def
      split: json.splits if_splits option.splits prod.splits)

lemma process_image_keeps_out:
  assumes env: "plain (rel_dir env)" and a: "safe_id env a"
    and step: "process_image env fname (JStr t) st x = ImgDone md' st'"
  shows "\<exists>t'. md' = JStr t' \<and>
      (\<not> sublist (bare_ref a) t \<longrightarrow> \<not> sublist (bare_ref a) t') \<and>
      (\<not> sublist (named_ref a) t \<longrightarrow> \<not> sublist (named_ref a) t')"
proof -
  from process_image_done [OF step] obtain kvs uri where
    md': "md' = JStr (py_replace
              (py_replace t (bare_ref (fmt env (dict_get kvs ''id'')))
                 (bare_ref (rel_dir env @ asset_name (counter st) (fst (parse_payload uri)))))
              (named_ref (fmt env (dict_get kvs ''id'')))
              (bare_ref (rel_dir env @ asset_name (counter st) (fst (parse_payload uri)))))"
    by blast
  let ?b = "rel_dir env @ asset_name (counter st) (fst (parse_payload uri))"
  let ?i = "fmt env (dict_get kvs ''id'')"
  let ?t1 = "replace_all t (bare_ref ?i) (bare_ref ?b)"
  let ?t2 = "replace_all ?t1 (named_ref ?i) (bare_ref ?b)"
  have pa: "plain a" and ne: "a \<noteq> []" and br: "\<not> prefix '']'' a"
    using a by (simp_all add: safe_id_def)
  have pb: "plain ?b" using env by (rule plain_link)
  have ab: "a \<noteq> ?b" using a by (rule safe_id_not_link)
  have eq: "md' = JStr ?t2" unfolding md' py_replace_ref ..
  have "\<not> sublist (bare_ref a) ?t2" if "\<not> sublist (bare_ref a) t"
    by (intro link_keeps_bare_out pa pb ab that)
  moreover have "\<not> sublist (named_ref a) ?t2" if "\<not> sublist (named_ref a) t"
    by (intro link_keeps_named_out pa pb ne br that)
  ultimately show ?thesis using eq by blast
qed

lemma process_image_resolves:
  assumes env: "plain (rel_dir env)" and a: "safe_id env (fmt env (dict_get kvs ''id''))"
    and step: "process_image env fname (JStr t) st (JObj kvs) = ImgDone md' st'"
  shows "\<exists>t'. md' = JStr t' \<and>
      \<not> sublist (bare_ref (fmt env (dict_get kvs ''id''))) t' \<and>
      \<not> sublist (named_ref (fmt env (dict_get kvs ''id''))) t'"
proof -
  let ?i = "fmt env (dict_get kvs ''id'')"
  from process_image_done [OF step] obtain uri where
    md': "md' = JStr (py_replace
              (py_replace t (bare_ref ?i)
                 (bare_ref (rel_dir env @ asset_name (counter st) (fst (parse_payload uri)))))
              (named_ref ?i)
              (bare_ref (rel_dir env @ asset_name (counter st) (fst (parse_payload uri)))))"
    by blast
  let ?b = "rel_dir env @ asset_name (counter st) (fst (parse_payload uri))"
  let ?t1 = "replace_all t (bare_ref ?i) (bare_ref ?b)"
  let ?t2 = "replace_all ?t1 (named_ref ?i) (bare_ref ?b)"
  have pa: "plain ?i" and ne: "?i \<noteq> []" and br: "\<not> prefix '']'' ?i"
    using a by (simp_all add: safe_id_def)
  have pb: "plain ?b" using env by (rule plain_link)
  have ab: "?i \<noteq> ?b" using a by (rule safe_id_not_link)
  have eq: "md' = JStr ?t2" unfolding md' py_replace_ref ..
  have "\<not> sublist (bare_ref ?i) ?t1" by (intro link_replaces_bare pa pb ab)
  then have "\<not> sublist (bare_ref ?i) ?t2" by (rule link_keeps_bare_out [OF pa pb ab])
  moreover have "\<not> sublist (named_ref ?i) ?t2" by (intro link_replaces_named pa pb ne br)
  ultimately show ?thesis using eq by blast
qed

lemma process_images_append:
  "process_images env fname (pre @ rest) md st =
     (case process_images env fname pre md st of
        Inl s \<Rightarrow> Inl s
      | Inr p \<Rightarrow> process_images env fname rest (fst p) (snd p))"
  by (induction pre arbitrary: md st) (simp_all split: img_step.splits)

lemma process_images_stays_text:
  "process_images env fname imgs (JStr t) st = Inr (md', st') \<Longrightarrow>
   \<exists>t'. md' = JStr t' \<and> md_out st' = md_out st"
proof (induction imgs arbitrary: t st)
  case Nil
  then show ?case by auto
next
  case (Cons x imgs)
  show ?case
  proof (cases "process_image env fname (JStr t) st x")
    case ImgRaise
    with Cons.prems show ?thesis by simp
  next
    case ImgSkip
    with Cons.prems Cons.IH show ?thesis by simp
  next
    case (ImgError s)
    with Cons.prems have "process_images env fname imgs (JStr t) s = Inr (md', st')" by simp
    from Cons.IH [OF this] process_image_md_out(1) [OF ImgError] show ?thesis by simp
  next
    case (ImgDone md1 s)
    then obtain t1 where t1: "md1 = JStr t1" using process_image_text by blast
    with ImgDone Cons.prems have "process_images env fname imgs (JStr t1) s = Inr (md', st')"
      by simp
    from Cons.IH [OF this] process_image_md_out(2) [OF ImgDone] show ?thesis by simp
  qed
qed

lemma process_images_keep_out:
  assumes env: "plain (rel_dir env)" and a: "safe_id env a"
  shows "process_images env fname imgs (JStr t) st = Inr (md', st') \<Longrightarrow>
     \<not> sublist (bare_ref a) t \<Longrightarrow> \<not> sublist (named_ref a) t \<Longrightarrow>
     \<exists>t'. md' = JStr t' \<and> \<not> sublist (bare_ref a) t' \<and> \<not> sublist (named_ref a) t'"
proof (induction imgs arbitrary: t st)
  case Nil
  then show ?case by auto
next
  case (Cons x imgs)
  show ?case
  proof (cases "process_image env fname (JStr t) st x")
    case ImgRaise
    with Cons.prems show ?thesis by simp
  next
    case ImgSkip
    with Cons.prems have "process_images env fname imgs (JStr t) st = Inr (md', st')" by simp
    from Cons.IH [OF this Cons.prems(2,3)] show ?thesis .
  next
    case (ImgError s)
    with Cons.prems have "process_images env fname imgs (JStr t) s = Inr (md', st')" by simp
    from Cons.IH [OF this Cons.prems(2,3)] show ?thesis .
  next
    case (ImgDone md1 s)
    from process_image_keeps_out [OF env a ImgDone] Cons.prems(2,3)
    obtain t1 where t1: "md1 = JStr t1" "\<not> sublist (bare_ref a) t1" "\<not> sublist (named_ref a) t1"
      by blast
    with ImgDone Cons.prems have "process_images env fname imgs (JStr t1) s = Inr (md', st')"
      by simp
    from Cons.IH [OF this t1(2,3)] show ?thesis .
  qed
qed

lemma resolved_in_loop:
  assumes env: "plain (rel_dir env)"
    and a: "safe_id env (fmt env (dict_get kvs ''id''))"
    and before: "process_images env fname pre (JStr m) st = Inr (md1, st1)"
    and step: "process_image env fname md1 st1 (JObj kvs) = ImgDone md2 st2"
    and whole: "process_images env fname (pre @ JObj kvs # post) (JStr m) st = Inr (md', st')"
  shows "\<exists>t. md' = JStr t \<and> md_out st' = md_out st \<and>
      \<not> sublist (bare_ref (fmt env (dict_get kvs ''id''))) t \<and>
      \<not> sublist (named_ref (fmt env (dict_get kvs ''id''))) t"
proof -
  from process_images_stays_text [OF before] obtain m1 where m1: "md1 = JStr m1" by blast
  from process_image_resolves [OF env a step [unfolded m1]] obtain t2 where
    t2: "md2 = JStr t2" "\<not> sublist (bare_ref (fmt env (dict_get kvs ''id''))) t2"
      "\<not> sublist (named_ref (fmt env (dict_get kvs ''id''))) t2" by blast
  have "process_images env fname (pre @ JObj kvs # post) (JStr m) st =
      process_images env fname post md2 st2"
    using before step by (simp add: process_images_append)
  with whole t2(1) have rest: "process_images env fname post (JStr t2) st2 = Inr (md', st')" by simp
  from process_images_keep_out [OF env a rest t2(2,3)] obtain t where
    t: "md' = JStr t" "\<not> sublist (bare_ref (fmt env (dict_get kvs ''id''))) t"
      "\<not> sublist (named_ref (fmt env (dict_get kvs ''id''))) t" by blast
  from process_images_stays_text [OF whole] have "md_out st' = md_out st" by blast
  with t show ?thesis by blast
qed

text \<open>
  Claim C1, as amended. When an image of a page is decoded and written (its step is
  \<open>ImgDone\<close>) and the page text is appended, the appended text contains neither
  \<open>![](id)\<close> nor \<open>![id](id)\<close> for the id of that image, provided that the id text
  is \<open>safe_id\<close> and the relative path of the asset directory is \<open>plain\<close>.
\<close>

theorem resolved_placeholders_replaced:
  assumes "plain (rel_dir env)"
    and "dict_get page ''markdown'' = JStr m"
    and "py_iter (dict_get_or page ''images'' (JArr [])) = Some (pre @ JObj kvs # post)"
    and "process_images env fname pre (JStr m) st = Inr (md1, st1)"
    and "process_image env fname md1 st1 (JObj kvs) = ImgDone md2 st2"
    and "safe_id env (fmt env (dict_get kvs ''id''))"
    and "process_page env fname st (JObj page) = PageDone st'"
  shows "\<exists>t. md_out st' = md_out st @ t @ blank_line \<and>
     \<not> sublist (bare_ref (fmt env (dict_get kvs ''id''))) t \<and>
     \<not> sublist (named_ref (fmt env (dict_get kvs ''id''))) t"
proof -
  let ?imgs = "pre @ JObj kvs # post"
  have tr: "truthy (dict_get page ''markdown'')"
    using assms(2,7) by (auto simp add: process_page_def split: if_splits)
  obtain md' s where loop: "process_images env fname ?imgs (JStr m) st = Inr (md', s)"
    using assms(2,3,7) tr
    by (cases "process_images env fname ?imgs (JStr m) st") (auto simp add: process_page_def)
  from resolved_in_loop [OF assms(1,6,4,5) loop] obtain t where
    t: "md' = JStr t" "md_out s = md_out st"
      "\<not> sublist (bare_ref (fmt env (dict_get kvs ''id''))) t"
      "\<not> sublist (named_ref (fmt env (dict_get kvs ''id''))) t" by blast
  have "process_page env fname st (JObj page) = PageDone (s\<lparr>md_out := md_out s @ t @ blank_line\<rparr>)"
    using assms(2,3) tr loop t(1) by (simp add: process_page_def)
  with assms(7) have "st' = s\<lparr>md_out := md_out s @ t @ blank_line\<rparr>" by simp
  then have "md_out st' = md_out st @ t @ blank_line" using t(2) by simp
  with t(3,4) show ?thesis by blast
qed


theorem resolved_placeholders_replaced_witness:
  "plain (rel_dir example_env) \<and>
   dict_get example_page_two_forms ''markdown'' = JStr ''See ![](img1) and ![img1](img1)'' \<and>
   py_iter (dict_get_or example_page_two_forms ''images'' (JArr [])) =
     Some ([] @ JObj [(''id'', JStr ''img1''), (''image_base64'', JStr ''data:image/png;base64,QQ=='')] # []) \<and>
   safe_id example_env
     (fmt example_env (dict_get [(''id'', JStr ''img1''), (''image_base64'', JStr ''data:image/png;base64,QQ=='')] ''id'')) \<and>
   process_page example_env ''a.json'' initial_state (JObj example_page_two_forms) =
     PageDone \<lparr>md_out = ''See ![](../images/image_0000000000.png) and ![](../images/image_0000000000.png)'' @ blank_line,
               writes = [(''image_0000000000.png'', ''A'')], counter = 1, logs = []\<rparr> \<and>
   (\<exists>t. ''See ![](../images/image_0000000000.png) and ![](../images/image_0000000000.png)'' @ blank_line =
          md_out initial_state @ t @ blank_line \<and>
        \<not> sublist (bare_ref ''img1'') t \<and> \<not> sublist (named_ref ''img1'') t)"
proof -
  let ?kvs = "[(''id'', JStr ''img1''), (''image_base64'', JStr ''data:image/png;base64,QQ=='')]"
  let ?m = "''See ![](img1) and ![img1](img1)''"
  let ?out = "''See ![](../images/image_0000000000.png) and ![](../images/image_0000000000.png)''"
  let ?st2 = "\<lparr>md_out = [], writes = [(''image_0000000000.png'', ''A'')], counter = 1, logs = []\<rparr>"
  let ?st' = "\<lparr>md_out = ?out @ blank_line, writes = [(''image_0000000000.png'', ''A'')], counter = 1, logs = []\<rparr>"
  have h1: "plain (rel_dir example_env)" by (simp add: plain_def example_env_def)
  have h2: "dict_get example_page_two_forms ''markdown'' = JStr ?m"
    by (simp add: dict_get_def example_page_two_forms_def)
  have h3: "py_iter (dict_get_or example_page_two_forms ''images'' (JArr [])) = Some ([] @ JObj ?kvs # [])"
    by (simp add: dict_get_or_def example_page_two_forms_def example_image_def)
  have h4: "process_images example_env ''a.json'' [] (JStr ?m) initial_state = Inr (JStr ?m, initial_state)"
    by simp
  have h5: "process_image example_env ''a.json'' (JStr ?m) initial_state (JObj ?kvs) = ImgDone (JStr ?out) ?st2"
    by code_simp
  have h6: "safe_id example_env (fmt example_env (dict_get ?kvs ''id''))"
    by (simp add: safe_id_def fmt_def dict_get_def plain_def example_env_def)
  have h7: "process_page example_env ''a.json'' initial_state (JObj example_page_two_forms) = PageDone ?st'"
    by code_simp
  have i: "fmt example_env (dict_get ?kvs ''id'') = ''img1''" by (simp add: fmt_def dict_get_def)
  from resolved_placeholders_replaced [OF h1 h2 h3 h4 h5 h6 h7]
  have "\<exists>t. ?out @ blank_line = md_out initial_state @ t @ blank_line \<and>
        \<not> sublist (bare_ref ''img1'') t \<and> \<not> sublist (named_ref ''img1'') t"
    unfolding i by simp
  with h1 h2 h3 h6 h7 show ?thesis by blast
qed


text \<open>
  Claim C1 as stated fails without the proviso: the image of \<open>clash_record\<close> has the id
  \<open>../images/image_0000000000.jpeg\<close>; it is decoded and written without any error, and
  the text emitted for its page still contains \<open>![](../images/image_0000000000.jpeg)\<close>.
\<close>

theorem placeholder_survives_counterexample:
  "core (stitch_ocr_data example_env [(''c.json'', Some clash_record)]) =
     (''![](../images/image_0000000000.jpeg)'' @ blank_line,
      [(''image_0000000000.jpeg'', ''B'')], 1) \<and>
   logs (stitch_ocr_data example_env [(''c.json'', Some clash_record)]) =
     [StatusStitching ''c.json'' 1 1, StatusStitched] \<and>
   sublist (bare_ref ''../images/image_0000000000.jpeg'')
     (md_out (stitch_ocr_data example_env [(''c.json'', Some clash_record)]))"
  by code_simp

end
